theory Spec2Isabelle
  imports Main
begin

section \<open>DelayBot: the time-expression validator \<open>get_time\<close>\<close>

text \<open>
  The development embeds \<^verbatim>\<open>DelayBot.get_time\<close> of \<^verbatim>\<open>DelayBot.py\<close> (Python 2) and
  the three attributes of the bot object it reads: \<^verbatim>\<open>blockLimits\<close>, \<^verbatim>\<open>meridiems\<close> and
  \<^verbatim>\<open>clockLimits\<close>. Integers are unbounded (\<^typ>\<open>int\<close>). The method assigns to
  \<^verbatim>\<open>self.clockLimits[0]\<close>, so the bot object is passed in and returned.

  A token is a \<^typ>\<open>string\<close>, a list of 8-bit characters, with the built-ins of a Python 2
  byte string (\<^verbatim>\<open>str\<close>). A token of ASCII characters behaves the same as a \<^verbatim>\<open>str\<close> and as
  a \<^verbatim>\<open>unicode\<close> object, so the model covers it in both forms. The tokens that \<^verbatim>\<open>respond\<close>
  passes on come from the decoded message and are \<^verbatim>\<open>unicode\<close> objects; one with a character
  outside ASCII is not covered by the model: there \<^verbatim>\<open>upper\<close>, \<^verbatim>\<open>isdigit\<close> and \<^verbatim>\<open>int\<close> follow
  the Unicode tables, which are not part of the source (and \<^verbatim>\<open>isdigit\<close> accepts characters
  there that \<^verbatim>\<open>int\<close> does not read, the superscript two U+00B2 for one).
\<close>

subsection \<open>Built-ins of Python used by the method\<close>

datatype error = ValueError | KeyError | IndexError

text \<open>\<^verbatim>\<open>str.upper()\<close> on a byte string: the letters a..z (the bytes 97 to 122) are
  mapped to A..Z (32 lower), every other byte is kept.\<close>

definition upper_char :: "char \<Rightarrow> char" where
  "upper_char c =
     (let n = of_char c :: nat in if 97 \<le> n \<and> n \<le> 122 then char_of (n - 32) else c)"

definition upper :: "string \<Rightarrow> string" where
  "upper s = map upper_char s"

definition is_digit :: "char \<Rightarrow> bool" where
  "is_digit c = (c \<in> set ''0123456789'')"

text \<open>\<^verbatim>\<open>str.isdigit()\<close>: true when the string is not empty and all its characters are
  decimal digits.\<close>

definition isdigit :: "string \<Rightarrow> bool" where
  "isdigit s = (s \<noteq> [] \<and> list_all is_digit s)"

text \<open>\<^verbatim>\<open>int(s)\<close> on a byte string. The method passes it strings of decimal digits only;
  there it reads the digits from left to right. On the empty string and on a string with
  another character the model raises \<^verbatim>\<open>ValueError\<close> (of these Python accepts a few, a
  sign or blanks around the digits; none of them is passed).\<close>

definition digit_value :: "char \<Rightarrow> int option" where
  "digit_value =
     map_of [(CHR ''0'', 0), (CHR ''1'', 1), (CHR ''2'', 2), (CHR ''3'', 3), (CHR ''4'', 4),
             (CHR ''5'', 5), (CHR ''6'', 6), (CHR ''7'', 7), (CHR ''8'', 8), (CHR ''9'', 9)]"

fun int_digits :: "int \<Rightarrow> string \<Rightarrow> error + int" where
  "int_digits n [] = Inr n"
| "int_digits n (c # cs) =
     (case digit_value c of
        None \<Rightarrow> Inl ValueError
      | Some d \<Rightarrow> int_digits (10 * n + d) cs)"

definition py_int :: "string \<Rightarrow> error + int" where
  "py_int s = (if s = [] then Inl ValueError else int_digits 0 s)"

text \<open>The number that a string of decimal digits denotes (the digits \<^verbatim>\<open>0\<close> to \<^verbatim>\<open>9\<close> are
  the bytes 48 to 57); the properties below state the limits with it.\<close>

definition decimal :: "string \<Rightarrow> int" where
  "decimal s = foldl (\<lambda>n c. 10 * n + (int (of_char c) - 48)) 0 s"

text \<open>\<^verbatim>\<open>s.split(sep)\<close> for a separator of one character: the pieces between the
  separators, empty pieces kept; the result is never the empty list.\<close>

fun str_split :: "char \<Rightarrow> string \<Rightarrow> string list" where
  "str_split sep [] = [[]]"
| "str_split sep (c # cs) =
     (if c = sep then [] # str_split sep cs
      else (case str_split sep cs of
              [] \<Rightarrow> [[c]]
            | x # xs \<Rightarrow> (c # x) # xs))"

subsection \<open>The two regular expressions\<close>

definition is_unit_char :: "char \<Rightarrow> bool" where
  "is_unit_char c = (c \<in> set ''HMDS'')"

text \<open>The pattern \<^verbatim>\<open>[0-9]{1,2}[HMDS]{1}\<close> tried at the start of a string: the matched
  text and the rest. The digit count is greedy: two digits are tried first, then one.\<close>

fun regexp_at :: "string \<Rightarrow> (string \<times> string) option" where
  "regexp_at (a # b # c # rest) =
     (if is_digit a \<and> is_digit b \<and> is_unit_char c then Some ([a, b, c], rest)
      else if is_digit a \<and> is_unit_char b then Some ([a, b], c # rest)
      else None)"
| "regexp_at [a, b] = (if is_digit a \<and> is_unit_char b then Some ([a, b], []) else None)"
| "regexp_at _ = None"

text \<open>\<^verbatim>\<open>$\<close> (without the multi-line flag) holds at the end of the string and just before
  a newline that ends the string.\<close>

definition at_end :: "string \<Rightarrow> bool" where
  "at_end s = (s = [] \<or> s = [CHR 0x0A])"

text \<open>\<^verbatim>\<open>(...){1,n}$\<close>: at most \<open>n\<close> repetitions of the group, at least one, then the
  end.\<close>

fun repeat_regexp :: "nat \<Rightarrow> string \<Rightarrow> bool" where
  "repeat_regexp 0 s = False"
| "repeat_regexp (Suc n) s =
     (case regexp_at s of
        None \<Rightarrow> False
      | Some (m, rest) \<Rightarrow> at_end rest \<or> repeat_regexp n rest)"

text \<open>\<^verbatim>\<open>self.blockRegexpMatch.match(arg)\<close>, the pattern being
  \<^verbatim>\<open>^([0-9]{1,2}[HMDS]{1}){1,4}$\<close>.\<close>

definition blockRegexpMatch :: "string \<Rightarrow> bool" where
  "blockRegexpMatch s = repeat_regexp 4 s"

text \<open>\<^verbatim>\<open>self.blockRegexpFind.findall(arg)\<close>: the matches of the pattern from left to
  right, the search going on after each match, and one character further where there is
  none.\<close>

function findall :: "string \<Rightarrow> string list" where
  "findall [] = []"
| "findall (c # cs) =
     (case regexp_at (c # cs) of
        None \<Rightarrow> findall cs
      | Some (m, rest) \<Rightarrow> m # findall rest)"
  by pat_completeness auto
termination
  by (relation "measure length") (auto elim!: regexp_at.elims split: if_splits)

subsection \<open>The bot object\<close>

record DelayBot =
  blockLimits :: "char \<rightharpoonup> int"
  meridiems :: "string set"
  clockLimits :: "int list"

text \<open>The attributes as \<^verbatim>\<open>__init__\<close> sets them.\<close>

definition new_bot :: DelayBot where
  "new_bot =
     \<lparr> blockLimits = [CHR ''D'' \<mapsto> 1, CHR ''H'' \<mapsto> 24, CHR ''M'' \<mapsto> 60, CHR ''S'' \<mapsto> 60],
       meridiems = {''AM'', ''PM'', ''A.M.'', ''P.M.'', ''''},
       clockLimits = [23, 59, 59] \<rparr>"

subsection \<open>\<open>get_time\<close>\<close>

text \<open>The method returns \<^verbatim>\<open>True\<close> (\<open>Valid\<close>), or prints one line and returns \<^verbatim>\<open>False\<close>
  (\<open>Invalid\<close>). A \<open>message\<close> is the line printed before \<^verbatim>\<open>return False\<close>, one
  constructor for each such place of the source, with the values the line is formatted
  from. The line that line 145 prints for a meridiem, before the checks go on, is left
  out.\<close>

datatype message =
    NotAValidFormat
  | DefinedTwice
  | ValueIsTooHigh
  | NotAMeridiem string
  | MissingValues
  | NonNumericValue
  | ValueTooHigh string int nat

datatype verdict = Valid | Invalid message

datatype format = Block | Clock

text \<open>Lines 103 to 110: the format, or none.\<close>

definition classify :: "string \<Rightarrow> format option" where
  "classify arg =
     (if blockRegexpMatch arg then Some Block
      else if CHR '':'' \<in> set arg then Some Clock
      else None)"

text \<open>Lines 118 to 130, the loop over the parts of a block: \<open>tally\<close> holds the unit
  letters met so far. The left operand of the comparison, \<^verbatim>\<open>int(value[:-1])\<close>, is
  evaluated before \<^verbatim>\<open>self.blockLimits[char]\<close>.\<close>

fun block_loop :: "DelayBot \<Rightarrow> char list \<Rightarrow> string list \<Rightarrow> error + verdict" where
  "block_loop self tally [] = Inr Valid"
| "block_loop self tally (v # rest) =
     (if v = [] then Inl IndexError
      else let char = last v in
        if char \<in> set tally then Inr (Invalid DefinedTwice)
        else (case py_int (butlast v) of
                Inl e \<Rightarrow> Inl e
              | Inr n \<Rightarrow>
                 (case blockLimits self char of
                    None \<Rightarrow> Inl KeyError
                  | Some lim \<Rightarrow>
                     if n > lim then Inr (Invalid ValueIsTooHigh)
                     else block_loop self (tally @ [char]) rest)))"

text \<open>Lines 154 to 163, the loop over the segments of a clock, \<open>x\<close> the index of the
  segment.\<close>

fun clock_loop :: "DelayBot \<Rightarrow> nat \<Rightarrow> string list \<Rightarrow> error + verdict" where
  "clock_loop self x [] = Inr Valid"
| "clock_loop self x (v # rest) =
     (if \<not> isdigit v then Inr (Invalid NonNumericValue)
      else (case py_int v of
              Inl e \<Rightarrow> Inl e
            | Inr n \<Rightarrow>
               if x < length (clockLimits self) then
                 (if n > clockLimits self ! x
                  then Inr (Invalid (ValueTooHigh v (clockLimits self ! x) x))
                  else clock_loop self (Suc x) rest)
               else Inl IndexError))"

text \<open>Lines 143 to 145: a meridiem that is not empty stores 12 as the hour limit of the
  bot object.\<close>

definition set_mode :: "DelayBot \<Rightarrow> string \<Rightarrow> error + DelayBot" where
  "set_mode self ending =
     (if ending \<noteq> [] then
        (if clockLimits self = [] then Inl IndexError
         else Inr (self\<lparr>clockLimits := (clockLimits self)[0 := 12]\<rparr>))
      else Inr self)"

text \<open>Lines 134 to 163, on the segments \<^verbatim>\<open>arg.split(":")\<close>.\<close>

definition clock_branch :: "DelayBot \<Rightarrow> string list \<Rightarrow> (error + verdict) \<times> DelayBot" where
  "clock_branch self arg =
     (if arg = [] then (Inl IndexError, self)
      else let ending = drop 2 (last arg) in
        if ending \<notin> meridiems self then (Inr (Invalid (NotAMeridiem ending)), self)
        else (case set_mode self ending of
                Inl e \<Rightarrow> (Inl e, self)
              | Inr self' \<Rightarrow>
                 let arg' = arg[length arg - 1 := take 2 (last arg)] in
                 if length arg' \<noteq> 2 \<and> length arg' \<noteq> 3
                 then (Inr (Invalid MissingValues), self')
                 else (clock_loop self' 0 arg', self')))"

text \<open>The method: its result, an exception or a verdict, and the bot object after the
  call.\<close>

definition get_time :: "DelayBot \<Rightarrow> string \<Rightarrow> (error + verdict) \<times> DelayBot" where
  "get_time self arg0 =
     (let arg = upper arg0 in
      case classify arg of
        None \<Rightarrow> (Inr (Invalid NotAValidFormat), self)
      | Some Block \<Rightarrow> (block_loop self [] (findall arg), self)
      | Some Clock \<Rightarrow> clock_branch self (str_split CHR '':'' arg))"

text \<open>The bot object after \<^verbatim>\<open>get_time\<close> has been called on each token of a list, in
  order, from a new bot.\<close>

definition after_calls :: "string list \<Rightarrow> DelayBot" where
  "after_calls ts = foldl (\<lambda>self t. snd (get_time self t)) new_bot ts"

text \<open>The bot object once a call has stored the hour limit 12.\<close>

definition twelve_bot :: DelayBot where
  "twelve_bot = new_bot\<lparr>clockLimits := [12, 59, 59]\<rparr>"

section \<open>Properties\<close>

subsection \<open>\<open>int\<close> on strings of digits\<close>

lemma digit_value_digit: "is_digit c \<Longrightarrow> digit_value c = Some (int (of_char c) - 48)"
  by (auto simp: is_digit_def digit_value_def)

lemma int_digits_decimal:
  "list_all is_digit s \<Longrightarrow>
     int_digits n s = Inr (foldl (\<lambda>n c. 10 * n + (int (of_char c) - 48)) n s)"
  by (induction s arbitrary: n) (simp_all add: digit_value_digit)

lemma py_int_isdigit: "isdigit s \<Longrightarrow> py_int s = Inr (decimal s)"
  by (simp add: isdigit_def py_int_def decimal_def int_digits_decimal)

subsection \<open>Upper case\<close>

lemma upper_char_same: "\<not> (97 \<le> (of_char c :: nat) \<and> (of_char c :: nat) \<le> 122) \<Longrightarrow> upper_char c = c"
  by (auto simp add: upper_char_def Let_def)

lemma upper_char_code:
  assumes "97 \<le> (of_char c :: nat)" and "(of_char c :: nat) \<le> 122"
  shows "(of_char (upper_char c) :: nat) = of_char c - 32"
proof -
  have "upper_char c = char_of (of_char c - 32 :: nat)"
    using assms by (simp add: upper_char_def Let_def)
  then have "(of_char (upper_char c) :: nat) = (of_char c - 32) mod 256"
    by simp
  also have "\<dots> = of_char c - 32"
    using assms by simp
  finally show ?thesis .
qed

lemma upper_char_idem: "upper_char (upper_char c) = upper_char c"
proof (cases "97 \<le> (of_char c :: nat) \<and> (of_char c :: nat) \<le> 122")
  case True
  then have "(of_char (upper_char c) :: nat) < 97"
    using upper_char_code [of c] by linarith
  then show ?thesis
    by (simp add: upper_char_same)
next
  case False
  then show ?thesis by (simp add: upper_char_same)
qed

lemma upper_idem: "upper (upper s) = upper s"
  by (simp add: upper_def upper_char_idem)

lemma upper_char_colon: "upper_char c = CHR '':'' \<longleftrightarrow> c = CHR '':''"
proof (cases "97 \<le> (of_char c :: nat) \<and> (of_char c :: nat) \<le> 122")
  case True
  then have "(of_char (upper_char c) :: nat) \<noteq> 58"
    using upper_char_code [of c] by linarith
  then have "upper_char c \<noteq> CHR '':''" by auto
  moreover from True have "c \<noteq> CHR '':''" by auto
  ultimately show ?thesis by auto
next
  case False
  then show ?thesis by (simp add: upper_char_same)
qed

lemma upper_char_digit: "is_digit c \<Longrightarrow> upper_char c = c"
  unfolding upper_char_def is_digit_def by auto

lemma upper_char_unit: "is_unit_char c \<Longrightarrow> upper_char c = c"
  unfolding upper_char_def is_unit_char_def by auto

lemma set_mode_cases:
  "set_mode self e = Inr self' \<Longrightarrow>
     self' = self \<or> (clockLimits self \<noteq> [] \<and> self' = self\<lparr>clockLimits := (clockLimits self)[0 := 12]\<rparr>)"
  by (auto simp: set_mode_def split: if_splits)

lemma clock_branch_state:
  "snd (clock_branch self arg) = self \<or>
   (clockLimits self \<noteq> [] \<and> snd (clock_branch self arg) = self\<lparr>clockLimits := (clockLimits self)[0 := 12]\<rparr>)"
  by (auto simp: clock_branch_def Let_def split: sum.splits dest: set_mode_cases)

lemma get_time_state:
  "snd (get_time self t) = self \<or>
   (clockLimits self \<noteq> [] \<and> snd (get_time self t) = self\<lparr>clockLimits := (clockLimits self)[0 := 12]\<rparr>)"
  using clock_branch_state
  by (auto simp: get_time_def Let_def split: option.splits format.splits)

lemma after_calls_snoc: "after_calls (ts @ [t]) = snd (get_time (after_calls ts) t)"
  by (simp add: after_calls_def)

lemma after_calls_cases: "after_calls ts = new_bot \<or> after_calls ts = twelve_bot"
proof (induction ts rule: rev_induct)
  case Nil
  show ?case by (simp add: after_calls_def)
next
  case (snoc t ts)
  have a: "new_bot\<lparr>clockLimits := (clockLimits new_bot)[0 := 12]\<rparr> = twelve_bot"
    by (simp add: new_bot_def twelve_bot_def)
  have b: "twelve_bot\<lparr>clockLimits := (clockLimits twelve_bot)[0 := 12]\<rparr> = twelve_bot"
    by (simp add: new_bot_def twelve_bot_def)
  from snoc get_time_state [of "after_calls ts" t] a b show ?case
    unfolding after_calls_snoc by metis
qed


lemma regexp_at_Some:
  "regexp_at s = Some (m, rest) \<Longrightarrow>
     s = m @ rest \<and> m \<noteq> [] \<and> isdigit (butlast m) \<and> is_unit_char (last m)"
  by (induction s rule: regexp_at.induct) (auto simp: isdigit_def split: if_splits)

lemma findall_parts:
  "v \<in> set (findall s) \<Longrightarrow> v \<noteq> [] \<and> isdigit (butlast v) \<and> is_unit_char (last v)"
proof (induction s rule: findall.induct)
  case 1
  then show ?case by simp
next
  case (2 c cs)
  show ?case
  proof (cases "regexp_at (c # cs)")
    case None
    with 2 show ?thesis by simp
  next
    case (Some p)
    obtain m rest where p: "p = (m, rest)" by (cases p)
    from 2 Some p regexp_at_Some [of "c # cs" m rest] show ?thesis by auto
  qed
qed

lemma block_loop_no_error:
  assumes "\<And>v. v \<in> set vs \<Longrightarrow> v \<noteq> [] \<and> isdigit (butlast v) \<and> is_unit_char (last v)"
    and "\<And>u. is_unit_char u \<Longrightarrow> blockLimits self u \<noteq> None"
  shows "\<exists>r. block_loop self tally vs = Inr r"
  using assms
proof (induction vs arbitrary: tally)
  case Nil
  show ?case by simp
next
  case (Cons v vs)
  have v: "v \<noteq> []" "isdigit (butlast v)" "is_unit_char (last v)"
    using Cons.prems(1) [of v] by simp_all
  obtain lim where lim: "blockLimits self (last v) = Some lim"
    using Cons.prems(2) [OF v(3)] by auto
  have "\<exists>r. block_loop self (tally @ [last v]) vs = Inr r"
    using Cons.IH Cons.prems by simp
  with v lim show ?case
    by (simp add: py_int_isdigit Let_def)
qed

lemma clock_loop_no_error:
  "x + length vs \<le> length (clockLimits self) \<Longrightarrow> \<exists>r. clock_loop self x vs = Inr r"
proof (induction vs arbitrary: x)
  case Nil
  show ?case by simp
next
  case (Cons v vs)
  then have "\<exists>r. clock_loop self (Suc x) vs = Inr r" by simp
  with Cons.prems show ?case
    by (cases "isdigit v") (simp_all add: py_int_isdigit)
qed

lemma str_split_not_Nil: "str_split sep s \<noteq> []"
  by (induction s) (auto split: list.splits)

lemma clock_branch_no_error:
  assumes "length (clockLimits self) = 3"
  shows "\<exists>r. fst (clock_branch self (str_split sep s)) = Inr r"
proof -
  let ?arg = "str_split sep s"
  let ?ending = "drop 2 (last ?arg)"
  let ?arg' = "?arg[length ?arg - 1 := take 2 (last ?arg)]"
  have "\<exists>self'. set_mode self ?ending = Inr self' \<and> length (clockLimits self') = 3"
    using assms by (cases "?ending = []") (auto simp: set_mode_def)
  then obtain self' where m: "set_mode self ?ending = Inr self'" and l: "length (clockLimits self') = 3"
    by blast
  have "\<exists>r. clock_loop self' 0 ?arg' = Inr r" if "length ?arg' = 2 \<or> length ?arg' = 3"
    using that l by (intro clock_loop_no_error) auto
  with m show ?thesis
    by (auto simp: clock_branch_def Let_def str_split_not_Nil)
qed

lemma get_time_no_error:
  assumes "length (clockLimits self) = 3"
    and "\<And>u. is_unit_char u \<Longrightarrow> blockLimits self u \<noteq> None"
  shows "\<exists>r. fst (get_time self t) = Inr r"
proof (cases "classify (upper t)")
  case None
  then show ?thesis by (simp add: get_time_def)
next
  case (Some f)
  show ?thesis
  proof (cases f)
    case Block
    have "\<exists>r. block_loop self [] (findall (upper t)) = Inr r"
      using findall_parts assms(2) by (intro block_loop_no_error) blast+
    with Some Block show ?thesis by (simp add: get_time_def)
  next
    case Clock
    with Some clock_branch_no_error [OF assms(1)] show ?thesis by (simp add: get_time_def)
  qed
qed

lemma unit_limits_new_bot: "is_unit_char u \<Longrightarrow> blockLimits new_bot u \<noteq> None"
  by (auto simp: is_unit_char_def new_bot_def)

lemma unit_limits_twelve_bot: "is_unit_char u \<Longrightarrow> blockLimits twelve_bot u \<noteq> None"
  by (auto simp: is_unit_char_def new_bot_def twelve_bot_def)


subsection \<open>Splitting at colons, and the clock branch\<close>



lemma str_split_upper: "str_split CHR '':'' (upper t) = map upper (str_split CHR '':'' t)"
proof (induction t)
  case Nil
  show ?case by (simp add: upper_def)
next
  case (Cons c t)
  then show ?case
    using str_split_not_Nil [of "CHR '':''" t]
    by (cases "str_split CHR '':'' t") (auto simp: upper_def upper_char_colon)
qed

lemma str_split_length: "sep \<in> set s \<longleftrightarrow> 2 \<le> length (str_split sep s)"
proof (induction s)
  case Nil
  show ?case by simp
next
  case (Cons c s)
  then show ?case
    using str_split_not_Nil [of sep s]
    by (cases "str_split sep s") auto
qed

lemma repeat_regexp_chars:
  "repeat_regexp n s \<Longrightarrow> c \<in> set s \<Longrightarrow> is_digit c \<or> is_unit_char c \<or> c = CHR 0x0A"
proof (induction n arbitrary: s c)
  case 0
  then show ?case by simp
next
  case (Suc n)
  from Suc.prems(1) obtain m rest where r: "regexp_at s = Some (m, rest)"
    and d: "at_end rest \<or> repeat_regexp n rest"
    by (auto split: option.splits)
  from regexp_at_Some [OF r] have s: "s = m @ rest" and m: "m \<noteq> []" "isdigit (butlast m)"
    "is_unit_char (last m)" by simp_all
  have "set m = set (butlast m) \<union> {last m}"
    using m(1) by (metis append_butlast_last_id list.simps(15) set_append Un_insert_right sup_bot.right_neutral empty_set)
  with m have "\<And>x. x \<in> set m \<Longrightarrow> is_digit x \<or> is_unit_char x"
    by (auto simp: isdigit_def list_all_iff)
  moreover have "\<And>x. x \<in> set rest \<Longrightarrow> is_digit x \<or> is_unit_char x \<or> x = CHR 0x0A"
    using d Suc.IH by (auto simp: at_end_def)
  ultimately show ?case using Suc.prems(2) s by auto
qed

lemma colon_not_block: "CHR '':'' \<in> set s \<Longrightarrow> \<not> blockRegexpMatch s"
  unfolding blockRegexpMatch_def
  by (auto dest!: repeat_regexp_chars simp: is_digit_def is_unit_char_def)

lemma colon_classify: "CHR '':'' \<in> set s \<Longrightarrow> classify s = Some Clock"
  by (simp add: classify_def colon_not_block)

lemma colon_upper_char: "CHR '':'' = upper_char c \<longleftrightarrow> c = CHR '':''"
  using upper_char_colon [of c] by auto

lemma colon_upper: "CHR '':'' \<in> set (upper s) \<longleftrightarrow> CHR '':'' \<in> set s"
  by (induction s) (auto simp add: upper_def colon_upper_char)

lemma isdigit_upper: "isdigit v \<Longrightarrow> upper v = v"
  by (simp add: isdigit_def upper_def list_all_iff map_idI upper_char_digit)

lemma get_time_clock: 
  "CHR '':'' \<in> set t \<Longrightarrow> get_time self t = clock_branch self (map upper (str_split CHR '':'' t))"
  by (simp add: get_time_def colon_classify colon_upper str_split_upper)

lemma clock_loop_Valid:
  "(\<And>i. i < length vs \<Longrightarrow> isdigit (vs ! i) \<and> x + i < length (clockLimits self) \<and>
        decimal (vs ! i) \<le> clockLimits self ! (x + i)) \<Longrightarrow>
   clock_loop self x vs = Inr Valid"
proof (induction vs arbitrary: x)
  case Nil
  show ?case by simp
next
  case (Cons v vs)
  have "clock_loop self (Suc x) vs = Inr Valid"
  proof (rule Cons.IH)
    fix i assume "i < length vs"
    then show "isdigit (vs ! i) \<and> Suc x + i < length (clockLimits self) \<and>
        decimal (vs ! i) \<le> clockLimits self ! (Suc x + i)"
      using Cons.prems [of "Suc i"] by simp
  qed
  with Cons.prems [of 0] show ?case by (simp add: py_int_isdigit)
qed

lemma meridiems_after_calls:
  "meridiems (after_calls ts) = {''AM'', ''PM'', ''A.M.'', ''P.M.'', ''''}"
  using after_calls_cases [of ts] by (auto simp: new_bot_def twelve_bot_def)

lemma classify_Clock: "classify s = Some Clock \<Longrightarrow> CHR '':'' \<in> set s"
  by (auto simp: classify_def split: if_splits)

lemma block_loop_not_Missing: "block_loop self tally vs \<noteq> Inr (Invalid MissingValues)"
  by (induction vs arbitrary: tally) (auto simp: Let_def split: sum.splits option.splits)

lemma clock_loop_not_Missing: "clock_loop self x vs \<noteq> Inr (Invalid MissingValues)"
  by (induction vs arbitrary: x) (auto split: sum.splits)

lemma get_time_Missing:
  assumes "fst (get_time self t) = Inr (Invalid MissingValues)"
  shows "3 < length (str_split CHR '':'' (upper t)) \<and>
         drop 2 (last (str_split CHR '':'' (upper t))) \<in> meridiems self"
proof -
  let ?arg = "str_split CHR '':'' (upper t)"
  have c: "classify (upper t) = Some Clock"
    using assms block_loop_not_Missing [of self "[]" "findall (upper t)"]
    by (auto simp: get_time_def Let_def split: option.splits format.splits)
  then have b: "fst (clock_branch self ?arg) = Inr (Invalid MissingValues)"
    using assms by (simp add: get_time_def)
  have "2 \<le> length ?arg"
    using classify_Clock [OF c] by (simp add: str_split_length)
  moreover have "length ?arg \<noteq> 2 \<and> length ?arg \<noteq> 3 \<and> drop 2 (last ?arg) \<in> meridiems self"
    using b clock_loop_not_Missing
    by (auto simp: clock_branch_def Let_def split: if_splits sum.splits)
  ultimately show ?thesis by auto
qed

lemma clock_branch_fields:
  assumes "segs \<noteq> []" and "drop 2 (last segs) \<in> meridiems self"
    and "length segs = 2 \<or> length segs = 3" and "clockLimits self \<noteq> []"
  shows "clock_branch self segs =
    (let self' = (if drop 2 (last segs) = [] then self
                  else self\<lparr>clockLimits := (clockLimits self)[0 := 12]\<rparr>)
     in (clock_loop self' 0 (butlast segs @ [take 2 (last segs)]), self'))"
proof -
  have "segs[length segs - 1 := take 2 (last segs)] = butlast segs @ [take 2 (last segs)]"
    using assms(1) by (cases segs rule: rev_cases) simp_all
  with assms show ?thesis
    by (auto simp: clock_branch_def set_mode_def Let_def)
qed

lemma upper_Nil: "upper s = [] \<longleftrightarrow> s = []"
  by (simp add: upper_def)

lemma get_time_clock_fields:
  assumes segs: "segs = str_split CHR '':'' t"
    and flds: "flds = butlast segs @ [take 2 (last segs)]"
    and mer: "upper (drop 2 (last segs)) \<in> meridiems self"
    and len: "length flds = 2 \<or> length flds = 3"
    and dig: "list_all isdigit flds"
    and lim: "clockLimits self \<noteq> []"
  shows "get_time self t =
    (let self' = (if drop 2 (last segs) = [] then self
                  else self\<lparr>clockLimits := (clockLimits self)[0 := 12]\<rparr>)
     in (clock_loop self' 0 flds, self'))"
proof -
  have ne: "segs \<noteq> []" by (simp add: segs str_split_not_Nil)
  have "length flds = length segs"
    using ne by (simp add: flds)
  with len have l: "length segs = 2 \<or> length segs = 3" by simp
  then have "CHR '':'' \<in> set t" by (auto simp: str_split_length segs)
  then have g: "get_time self t = clock_branch self (map upper segs)"
    unfolding segs by (rule get_time_clock)
  have last: "last (map upper segs) = upper (last segs)"
    using ne by (simp add: last_map)
  have "map upper flds = flds"
    using dig by (simp add: list_all_iff map_idI isdigit_upper)
  then have f: "butlast (map upper segs) @ [take 2 (last (map upper segs))] = flds"
    unfolding last flds by (simp add: map_butlast upper_def take_map)
  have d: "drop 2 (last (map upper segs)) = upper (drop 2 (last segs))"
    unfolding last by (simp add: upper_def drop_map)
  show ?thesis
    unfolding g using clock_branch_fields [of "map upper segs" self] ne mer l lim
    by (simp add: f d upper_Nil)
qed




lemma get_time_clock_24:
  assumes "segs = str_split CHR '':'' t"
    and "flds = butlast segs @ [take 2 (last segs)]"
    and "drop 2 (last segs) = []"
    and "[] \<in> meridiems self"
    and "length flds = 2 \<or> length flds = 3"
    and "list_all isdigit flds"
    and "clockLimits self \<noteq> []"
  shows "get_time self t = (clock_loop self 0 flds, self)"
  using get_time_clock_fields [OF assms(1,2) _ assms(5,6,7)] assms(3,4)
  by (simp add: upper_def)

lemma get_time_clock_12:
  assumes "segs = str_split CHR '':'' t"
    and "flds = butlast segs @ [take 2 (last segs)]"
    and "drop 2 (last segs) \<noteq> []"
    and "upper (drop 2 (last segs)) \<in> meridiems self"
    and "length flds = 2 \<or> length flds = 3"
    and "list_all isdigit flds"
    and "clockLimits self \<noteq> []"
  shows "get_time self t =
           (clock_loop (self\<lparr>clockLimits := (clockLimits self)[0 := 12]\<rparr>) 0 flds,
            self\<lparr>clockLimits := (clockLimits self)[0 := 12]\<rparr>)"
  using get_time_clock_fields [OF assms(1,2,4,5,6,7)] assms(3)
  by (simp add: Let_def)



lemma after_calls_12:
  "(after_calls ts)\<lparr>clockLimits := (clockLimits (after_calls ts))[0 := 12]\<rparr> = twelve_bot"
  using after_calls_cases [of ts] by (auto simp: new_bot_def twelve_bot_def)

lemma clockLimits_after_calls: "clockLimits (after_calls ts) \<noteq> []"
  using after_calls_cases [of ts] by (auto simp: new_bot_def twelve_bot_def)

lemma clock_loop_too_high:
  assumes "isdigit v" and "0 < length (clockLimits self)" and "clockLimits self ! 0 < decimal v"
  shows "clock_loop self 0 (v # vs) = Inr (Invalid (ValueTooHigh v (clockLimits self ! 0) 0))"
  using assms by (simp add: py_int_isdigit)

lemma unit_not_digit: "is_unit_char u \<Longrightarrow> \<not> is_digit u"
  by (auto simp: is_unit_char_def is_digit_def)

lemma regexp_at_part:
  assumes "length d = 1 \<or> length d = 2" and "list_all is_digit d" and "is_unit_char v"
  shows "regexp_at (d @ v # rest) = Some (d @ [v], rest)"
proof -
  from assms(1) consider a where "d = [a]" | a b where "d = [a, b]"
    by (cases d; cases "tl d") auto
  then show ?thesis
  proof cases
    case 1
    with assms show ?thesis
      by (cases rest) (simp_all add: unit_not_digit)
  next
    case 2
    with assms show ?thesis by simp
  qed
qed

lemma findall_match: "regexp_at s = Some (m, rest) \<Longrightarrow> findall s = m # findall rest"
  by (cases s) simp_all

lemma findall_blocks:
  assumes "\<forall>(d, v)\<in>set gs. (length d = 1 \<or> length d = 2) \<and> list_all is_digit d \<and> is_unit_char v"
  shows "findall (concat (map (\<lambda>(d, v). d @ [v]) gs)) = map (\<lambda>(d, v). d @ [v]) gs"
  using assms
proof (induction gs)
  case Nil
  show ?case by simp
next
  case (Cons g gs)
  obtain d v where g: "g = (d, v)" by (cases g)
  have "regexp_at (d @ v # concat (map (\<lambda>(d, v). d @ [v]) gs)) =
      Some (d @ [v], concat (map (\<lambda>(d, v). d @ [v]) gs))"
    using Cons.prems g by (intro regexp_at_part) auto
  then show ?case
    using Cons g by (simp add: findall_match)
qed

lemma repeat_regexp_blocks:
  assumes "\<forall>(d, v)\<in>set gs. (length d = 1 \<or> length d = 2) \<and> list_all is_digit d \<and> is_unit_char v"
    and "gs \<noteq> []" and "length gs \<le> n"
  shows "repeat_regexp n (concat (map (\<lambda>(d, v). d @ [v]) gs))"
  using assms
proof (induction gs arbitrary: n)
  case Nil
  then show ?case by simp
next
  case (Cons g gs)
  obtain d v where g: "g = (d, v)" by (cases g)
  obtain k where n: "n = Suc k" using Cons.prems(3) by (cases n) auto
  have r: "regexp_at (d @ v # concat (map (\<lambda>(d, v). d @ [v]) gs)) =
      Some (d @ [v], concat (map (\<lambda>(d, v). d @ [v]) gs))"
    using Cons.prems g by (intro regexp_at_part) auto
  show ?case
  proof (cases "gs = []")
    case True
    with r show ?thesis by (simp add: g n at_end_def)
  next
    case False
    then have "repeat_regexp k (concat (map (\<lambda>(d, v). d @ [v]) gs))"
      using Cons.prems n by (intro Cons.IH) auto
    with r show ?thesis by (simp add: g n)
  qed
qed

lemma upper_digits_unit: "list_all is_digit d \<Longrightarrow> is_unit_char v \<Longrightarrow> upper (d @ [v]) = d @ [v]"
  by (simp add: upper_def list_all_iff map_idI upper_char_digit upper_char_unit)

lemma upper_append: "upper (a @ b) = upper a @ upper b"
  by (simp add: upper_def)

lemma upper_blocks:
  assumes "\<forall>(d, v)\<in>set gs. (length d = 1 \<or> length d = 2) \<and> list_all is_digit d \<and> is_unit_char v"
  shows "upper (concat (map (\<lambda>(d, v). d @ [v]) gs)) = concat (map (\<lambda>(d, v). d @ [v]) gs)"
  using assms
proof (induction gs)
  case Nil
  show ?case by (simp add: upper_def)
next
  case (Cons g gs)
  obtain d v where g: "g = (d, v)" by (cases g)
  have "upper (d @ [v]) = d @ [v]"
    using Cons.prems g by (intro upper_digits_unit) auto
  moreover have "upper (concat (map (\<lambda>(d, v). d @ [v]) gs)) = concat (map (\<lambda>(d, v). d @ [v]) gs)"
    using Cons by simp
  ultimately show ?case
    using upper_append [of "d @ [v]" "concat (map (\<lambda>(d, v). d @ [v]) gs)"] by (simp add: g)
qed

lemma get_time_blocks:
  assumes "\<forall>(d, v)\<in>set gs. (length d = 1 \<or> length d = 2) \<and> list_all is_digit d \<and> is_unit_char v"
    and "gs \<noteq> []" and "length gs \<le> 4"
  shows "classify (upper (concat (map (\<lambda>(d, v). d @ [v]) gs))) = Some Block"
    and "get_time self (concat (map (\<lambda>(d, v). d @ [v]) gs)) =
           (block_loop self [] (map (\<lambda>(d, v). d @ [v]) gs), self)"
proof -
  show c: "classify (upper (concat (map (\<lambda>(d, v). d @ [v]) gs))) = Some Block"
    using repeat_regexp_blocks [OF assms]
    by (simp add: upper_blocks [OF assms(1)] classify_def blockRegexpMatch_def)
  show "get_time self (concat (map (\<lambda>(d, v). d @ [v]) gs)) =
           (block_loop self [] (map (\<lambda>(d, v). d @ [v]) gs), self)"
    using c by (simp add: get_time_def upper_blocks [OF assms(1)] findall_blocks [OF assms(1)])
qed

lemma block_loop_step:
  assumes "d \<noteq> []" and "list_all is_digit d" and "blockLimits self v = Some lim"
  shows "block_loop self tally ((d @ [v]) # rest) =
           (if v \<in> set tally then Inr (Invalid DefinedTwice)
            else if lim < decimal d then Inr (Invalid ValueIsTooHigh)
            else block_loop self (tally @ [v]) rest)"
  using assms by (simp add: py_int_isdigit isdigit_def)

lemma block_loop_Valid:
  assumes "\<forall>(d, v)\<in>set gs. d \<noteq> [] \<and> list_all is_digit d \<and> blockLimits self v = Some (lim v) \<and>
             decimal d \<le> lim v"
    and "distinct (map snd gs)" and "set (map snd gs) \<inter> set tally = {}"
  shows "block_loop self tally (map (\<lambda>(d, v). d @ [v]) gs) = Inr Valid"
  using assms
proof (induction gs arbitrary: tally)
  case Nil
  show ?case by simp
next
  case (Cons g gs)
  obtain d v where g: "g = (d, v)" by (cases g)
  have "block_loop self (tally @ [v]) (map (\<lambda>(d, v). d @ [v]) gs) = Inr Valid"
    using Cons.prems g by (intro Cons.IH) auto
  moreover have "d \<noteq> []" "list_all is_digit d" "blockLimits self v = Some (lim v)"
    "decimal d \<le> lim v" "v \<notin> set tally"
    using Cons.prems g by auto
  ultimately show ?case
    by (simp del: block_loop.simps(2) add: g block_loop_step [where lim = "lim v"])
qed

lemma block_loop_repeated:
  assumes "\<forall>(d, v)\<in>set pre. d \<noteq> [] \<and> list_all is_digit d \<and> blockLimits self v = Some (lim v)"
    and "distinct (map snd pre)" and "set (map snd pre) \<inter> set tally = {}"
    and "u \<in> set tally \<union> set (map snd pre)" and "ds \<noteq> []"
  shows "block_loop self tally (map (\<lambda>(d, v). d @ [v]) (pre @ (ds, u) # post)) =
           Inr (Invalid (if \<forall>(d, v)\<in>set pre. decimal d \<le> lim v then DefinedTwice
                         else ValueIsTooHigh))"
  using assms
proof (induction pre arbitrary: tally)
  case Nil
  then have "u \<in> set tally" by simp
  then show ?case using Nil.prems(5) by (simp add: Let_def)
next
  case (Cons g pre)
  obtain d v where g: "g = (d, v)" by (cases g)
  have g': "d \<noteq> []" "list_all is_digit d" "blockLimits self v = Some (lim v)" "v \<notin> set tally"
    using Cons.prems g by auto
  show ?case
  proof (cases "lim v < decimal d")
    case True
    with g' show ?thesis
      by (auto simp del: block_loop.simps(2) simp add: g block_loop_step [where lim = "lim v"])
  next
    case False
    have "block_loop self (tally @ [v]) (map (\<lambda>(d, v). d @ [v]) (pre @ (ds, u) # post)) =
           Inr (Invalid (if \<forall>(d, v)\<in>set pre. decimal d \<le> lim v then DefinedTwice
                         else ValueIsTooHigh))"
      using Cons.prems g by (intro Cons.IH) auto
    with False g' show ?thesis
      by (simp del: block_loop.simps(2) add: g block_loop_step [where lim = "lim v"])
  qed
qed

lemma blockLimits_after_calls:
  "v \<in> set ''DHMS'' \<Longrightarrow>
     blockLimits (after_calls ts) v =
       Some (if v = CHR ''D'' then 1 else if v = CHR ''H'' then 24 else 60)"
  using after_calls_cases [of ts] by (auto simp: new_bot_def twelve_bot_def)

subsection \<open>The claims\<close>

text \<open>
  C1. Validation should not depend on earlier calls: after any calls of \<open>get_time\<close> a token
  should get the verdict it gets from a new bot. The method does not have this property: a
  token with a meridiem stores 12 into \<^verbatim>\<open>self.clockLimits[0]\<close> and nothing stores 23
  back. On a new bot \<^verbatim>\<open>23:59\<close> is valid; after a call on \<^verbatim>\<open>12:59AM\<close> the same token is
  rejected, its hour 23 being above the limit 12.
\<close>

theorem get_time_keeps_twelve_hour_limit:
  "fst (get_time new_bot ''23:59'') = Inr Valid \<and>
   fst (get_time new_bot ''12:59AM'') = Inr Valid \<and>
   clockLimits (after_calls [''12:59AM'']) = [12, 59, 59] \<and>
   fst (get_time (after_calls [''12:59AM'']) ''23:59'') = Inr (Invalid (ValueTooHigh ''23'' 12 0)) \<and>
   fst (get_time (after_calls [''12:59AM'']) ''23:59'') \<noteq> fst (get_time new_bot ''23:59'')"
proof -
  have "fst (get_time new_bot ''23:59'') = Inr Valid"
    "fst (get_time new_bot ''12:59AM'') = Inr Valid"
    "clockLimits (after_calls [''12:59AM'']) = [12, 59, 59]"
    "fst (get_time (after_calls [''12:59AM'']) ''23:59'') = Inr (Invalid (ValueTooHigh ''23'' 12 0))"
    by code_simp+
  then show ?thesis by simp
qed



text \<open>
  C3. A token made of one to four groups, each of one or two digits and a unit letter among
  \<^verbatim>\<open>D\<close>, \<^verbatim>\<open>H\<close>, \<^verbatim>\<open>M\<close>, \<^verbatim>\<open>S\<close>, the units all different and the magnitudes within the
  limits (1 for \<^verbatim>\<open>D\<close>, 24 for \<^verbatim>\<open>H\<close>, 60 for \<^verbatim>\<open>M\<close> and \<^verbatim>\<open>S\<close>), is classified as a block
  and is valid, after any earlier calls; the bot object is left as it was.
\<close>

theorem block_valid:
  assumes "gs \<noteq> []" and "length gs \<le> 4"
    and "\<forall>(d, v)\<in>set gs. (length d = 1 \<or> length d = 2) \<and> list_all is_digit d \<and>
           v \<in> set ''DHMS'' \<and>
           decimal d \<le> (if v = CHR ''D'' then 1 else if v = CHR ''H'' then 24 else 60)"
    and "distinct (map snd gs)"
  shows "classify (upper (concat (map (\<lambda>(d, v). d @ [v]) gs))) = Some Block \<and>
         get_time (after_calls ts) (concat (map (\<lambda>(d, v). d @ [v]) gs)) =
           (Inr Valid, after_calls ts)"
proof -
  have wf: "\<forall>(d, v)\<in>set gs. (length d = 1 \<or> length d = 2) \<and> list_all is_digit d \<and> is_unit_char v"
    using assms(3) by (auto simp: is_unit_char_def)
  have "\<forall>(d, v)\<in>set gs. d \<noteq> [] \<and> list_all is_digit d \<and>
      blockLimits (after_calls ts) v =
        Some (if v = CHR ''D'' then 1 else if v = CHR ''H'' then 24 else 60) \<and>
      decimal d \<le> (if v = CHR ''D'' then 1 else if v = CHR ''H'' then 24 else 60)"
    using assms(3) blockLimits_after_calls [of _ ts] by fastforce
  then have "block_loop (after_calls ts) [] (map (\<lambda>(d, v). d @ [v]) gs) = Inr Valid"
    using assms(4) by (intro block_loop_Valid) simp_all
  with get_time_blocks [OF wf assms(1,2)] show ?thesis by simp
qed

theorem block_valid_witness:
  "[(''1'', CHR ''D''), (''24'', CHR ''H''), (''60'', CHR ''M''), (''60'', CHR ''S'')] \<noteq> [] \<and>
   length [(''1'', CHR ''D''), (''24'', CHR ''H''), (''60'', CHR ''M''), (''60'', CHR ''S'')] \<le> 4 \<and>
   decimal ''1'' \<le> 1 \<and> decimal ''24'' \<le> 24 \<and> decimal ''60'' \<le> 60 \<and>
   distinct (map snd [(''1'', CHR ''D''), (''24'', CHR ''H''), (''60'', CHR ''M''), (''60'', CHR ''S'')]) \<and>
   classify (upper ''1D24H60M60S'') = Some Block \<and>
   get_time (after_calls []) ''1D24H60M60S'' = (Inr Valid, after_calls [])"
proof -
  let ?gs = "[(''1'', CHR ''D''), (''24'', CHR ''H''), (''60'', CHR ''M''), (''60'', CHR ''S'')]"
  have d: "decimal ''1'' \<le> 1" "decimal ''24'' \<le> 24" "decimal ''60'' \<le> 60"
    by code_simp+
  have g: "list_all is_digit ''1''" "list_all is_digit ''24''" "list_all is_digit ''60''"
    by code_simp+
  have a: "?gs \<noteq> []" and b: "length ?gs \<le> 4" and e: "distinct (map snd ?gs)"
    by simp_all
  have c: "\<forall>(d, v)\<in>set ?gs. (length d = 1 \<or> length d = 2) \<and> list_all is_digit d \<and>
           v \<in> set ''DHMS'' \<and>
           decimal d \<le> (if v = CHR ''D'' then 1 else if v = CHR ''H'' then 24 else 60)"
    using d g by simp
  from block_valid [OF a b c e, of "[]"] a b d e show ?thesis by simp
qed

text \<open>
  C4, as amended. Take a block token in which some unit letter comes again, and let
  \<open>(ds, u)\<close> be the first group whose unit was met before (the groups \<open>pre\<close> before it have
  different units). The call returns \<^verbatim>\<open>False\<close>. The line printed is the one of the repeated
  unit when every group of \<open>pre\<close> is within its limit, whatever the magnitude \<open>ds\<close> of the
  repeated group is (the test for a repeated unit comes before the test of the magnitude);
  it is the one of the value too high when a group of \<open>pre\<close> is above its limit, the scan
  going from left to right and stopping at the first failure.
\<close>

theorem block_repeated_unit:
  assumes "gs = pre @ (ds, u) # post" and "length gs \<le> 4"
    and "\<forall>(d, v)\<in>set gs. (length d = 1 \<or> length d = 2) \<and> list_all is_digit d \<and>
           v \<in> set ''DHMS''"
    and "distinct (map snd pre)" and "u \<in> set (map snd pre)"
  shows "classify (upper (concat (map (\<lambda>(d, v). d @ [v]) gs))) = Some Block \<and>
         get_time (after_calls ts) (concat (map (\<lambda>(d, v). d @ [v]) gs)) =
           (Inr (Invalid
              (if \<forall>(d, v)\<in>set pre.
                    decimal d \<le> (if v = CHR ''D'' then 1 else if v = CHR ''H'' then 24 else 60)
               then DefinedTwice else ValueIsTooHigh)),
            after_calls ts)"
proof -
  have wf: "\<forall>(d, v)\<in>set gs. (length d = 1 \<or> length d = 2) \<and> list_all is_digit d \<and> is_unit_char v"
    using assms(3) by (auto simp: is_unit_char_def)
  have ne: "gs \<noteq> []" using assms(1) by simp
  have p: "\<forall>(d, v)\<in>set pre. d \<noteq> [] \<and> list_all is_digit d \<and>
      blockLimits (after_calls ts) v =
        Some (if v = CHR ''D'' then 1 else if v = CHR ''H'' then 24 else 60)"
  proof (rule ballI)
    fix g assume "g \<in> set pre"
    then have "g \<in> set gs" by (simp add: assms(1))
    moreover obtain d v where g: "g = (d, v)" by (cases g)
    ultimately have "length d = 1 \<or> length d = 2" "list_all is_digit d" "v \<in> set ''DHMS''"
      using assms(3) by blast+
    then have "d \<noteq> []" "list_all is_digit d"
      "blockLimits (after_calls ts) v =
        Some (if v = CHR ''D'' then 1 else if v = CHR ''H'' then 24 else 60)"
      using blockLimits_after_calls [of v ts] by auto
    then show "case g of (d, v) \<Rightarrow> d \<noteq> [] \<and> list_all is_digit d \<and>
      blockLimits (after_calls ts) v =
        Some (if v = CHR ''D'' then 1 else if v = CHR ''H'' then 24 else 60)"
      by (simp add: g)
  qed
  have "(ds, u) \<in> set gs" by (simp add: assms(1))
  then have "length ds = 1 \<or> length ds = 2" using assms(3) by blast
  then have d: "ds \<noteq> []" by auto
  have "block_loop (after_calls ts) [] (map (\<lambda>(d, v). d @ [v]) (pre @ (ds, u) # post)) =
      Inr (Invalid
        (if \<forall>(d, v)\<in>set pre.
              decimal d \<le> (if v = CHR ''D'' then 1 else if v = CHR ''H'' then 24 else 60)
         then DefinedTwice else ValueIsTooHigh))"
    using p assms(4,5) d by (intro block_loop_repeated) simp_all
  with get_time_blocks [OF wf ne assms(2)] show ?thesis by (simp add: assms(1))
qed

theorem block_repeated_unit_witness:
  "[(''1'', CHR ''S''), (''99'', CHR ''S'')] = [(''1'', CHR ''S'')] @ (''99'', CHR ''S'') # [] \<and>
   length [(''1'', CHR ''S''), (''99'', CHR ''S'')] \<le> 4 \<and>
   distinct (map snd [(''1'', CHR ''S'')]) \<and> CHR ''S'' \<in> set (map snd [(''1'', CHR ''S'')]) \<and>
   decimal ''1'' \<le> 60 \<and> 60 < decimal ''99'' \<and>
   get_time (after_calls []) ''1S99S'' = (Inr (Invalid DefinedTwice), after_calls []) \<and>
   [(''2'', CHR ''D''), (''1'', CHR ''D'')] = [(''2'', CHR ''D'')] @ (''1'', CHR ''D'') # [] \<and>
   1 < decimal ''2'' \<and>
   get_time (after_calls []) ''2D1D'' = (Inr (Invalid ValueIsTooHigh), after_calls [])"
proof -
  have d: "decimal ''1'' \<le> 60" "60 < decimal ''99''" "1 < decimal ''2''" "decimal ''1'' \<le> 1"
    by code_simp+
  have g: "list_all is_digit ''1''" "list_all is_digit ''99''" "list_all is_digit ''2''"
    by code_simp+
  have a: "[(''1'', CHR ''S''), (''99'', CHR ''S'')] = [(''1'', CHR ''S'')] @ (''99'', CHR ''S'') # []"
    and b: "length [(''1'', CHR ''S''), (''99'', CHR ''S'')] \<le> 4"
    and e: "distinct (map snd [(''1'', CHR ''S'')])"
    and f: "CHR ''S'' \<in> set (map snd [(''1'', CHR ''S'')])"
    by simp_all
  have c: "\<forall>(d, v)\<in>set [(''1'', CHR ''S''), (''99'', CHR ''S'')].
      (length d = 1 \<or> length d = 2) \<and> list_all is_digit d \<and> v \<in> set ''DHMS''"
    using g by simp
  have r: "get_time (after_calls []) ''1S99S'' = (Inr (Invalid DefinedTwice), after_calls [])"
    using block_repeated_unit [OF a b c e f, of "[]"] d by simp
  have a': "[(''2'', CHR ''D''), (''1'', CHR ''D'')] = [(''2'', CHR ''D'')] @ (''1'', CHR ''D'') # []"
    and b': "length [(''2'', CHR ''D''), (''1'', CHR ''D'')] \<le> 4"
    and e': "distinct (map snd [(''2'', CHR ''D'')])"
    and f': "CHR ''D'' \<in> set (map snd [(''2'', CHR ''D'')])"
    by simp_all
  have c': "\<forall>(d, v)\<in>set [(''2'', CHR ''D''), (''1'', CHR ''D'')].
      (length d = 1 \<or> length d = 2) \<and> list_all is_digit d \<and> v \<in> set ''DHMS''"
    using g by simp
  have r': "get_time (after_calls []) ''2D1D'' = (Inr (Invalid ValueIsTooHigh), after_calls [])"
    using block_repeated_unit [OF a' b' c' e' f', of "[]"] d by simp
  from a b e f d r a' r' show ?thesis by blast
qed

text \<open>
  C4, as stated, fails: \<^verbatim>\<open>2D1D\<close> is a block token that repeats \<^verbatim>\<open>D\<close>, and it is rejected
  for the value 2 of its first group, above the limit 1, not for the repeated unit.
\<close>

theorem block_repeated_unit_counterexample:
  "classify (upper ''2D1D'') = Some Block \<and>
   findall (upper ''2D1D'') = [''2D'', ''1D''] \<and>
   fst (get_time new_bot ''2D1D'') = Inr (Invalid ValueIsTooHigh) \<and>
   fst (get_time new_bot ''2D1D'') \<noteq> Inr (Invalid DefinedTwice)"
proof -
  have "classify (upper ''2D1D'') = Some Block" "findall (upper ''2D1D'') = [''2D'', ''1D'']"
    "fst (get_time new_bot ''2D1D'') = Inr (Invalid ValueIsTooHigh)"
    by code_simp+
  then show ?thesis by simp
qed

text \<open>
  C5. A clock token of two or three segments whose meridiem, the characters after the
  first two of the last segment, is \<^verbatim>\<open>AM\<close>, \<^verbatim>\<open>PM\<close>, \<^verbatim>\<open>A.M.\<close> or \<^verbatim>\<open>P.M.\<close> in upper or
  lower case, and whose fields (the segments, the last one without the meridiem) are all
  digits: with hour at most 12 and minute and second at most 59 it is valid; with an hour
  above 12 it is rejected, the hour being compared with the limit 12. Both hold after any
  earlier calls, and the bot object is left with the hour limit 12.
\<close>

theorem clock12_valid:
  assumes "segs = str_split CHR '':'' t"
    and "flds = butlast segs @ [take 2 (last segs)]"
    and "upper (drop 2 (last segs)) \<in> {''AM'', ''PM'', ''A.M.'', ''P.M.''}"
    and "length flds = 2 \<or> length flds = 3"
    and "list_all isdigit flds"
  shows "(decimal (flds ! 0) \<le> 12 \<and> (\<forall>i<length flds. 0 < i \<longrightarrow> decimal (flds ! i) \<le> 59) \<longrightarrow>
            get_time (after_calls ts) t = (Inr Valid, twelve_bot)) \<and>
         (12 < decimal (flds ! 0) \<longrightarrow>
            get_time (after_calls ts) t =
              (Inr (Invalid (ValueTooHigh (flds ! 0) 12 0)), twelve_bot))"
proof -
  have ne: "drop 2 (last segs) \<noteq> []"
    using assms(3) by (auto simp: upper_def)
  have mer: "upper (drop 2 (last segs)) \<in> meridiems (after_calls ts)"
    using assms(3) by (auto simp: meridiems_after_calls)
  have g: "get_time (after_calls ts) t = (clock_loop twelve_bot 0 flds, twelve_bot)"
    using get_time_clock_12 [OF assms(1,2) ne mer assms(4,5) clockLimits_after_calls]
    by (simp only: after_calls_12)
  have lim: "clockLimits twelve_bot = [12, 59, 59]"
    by (simp add: twelve_bot_def)
  have dig: "\<And>i. i < length flds \<Longrightarrow> isdigit (flds ! i)"
    using assms(5) by (simp add: list_all_length)
  have valid: "clock_loop twelve_bot 0 flds = Inr Valid"
    if h: "decimal (flds ! 0) \<le> 12" and m: "\<forall>i<length flds. 0 < i \<longrightarrow> decimal (flds ! i) \<le> 59"
  proof (rule clock_loop_Valid)
    fix i assume i: "i < length flds"
    then have "i = 0 \<or> i = 1 \<or> i = 2" using assms(4) by auto
    then have "decimal (flds ! i) \<le> clockLimits twelve_bot ! (0 + i)"
      using h m i by (auto simp: lim)
    moreover have "0 + i < length (clockLimits twelve_bot)"
      using i assms(4) by (auto simp: lim)
    ultimately show "isdigit (flds ! i) \<and> 0 + i < length (clockLimits twelve_bot) \<and>
        decimal (flds ! i) \<le> clockLimits twelve_bot ! (0 + i)"
      using dig [OF i] by simp
  qed
  have high: "clock_loop twelve_bot 0 flds = Inr (Invalid (ValueTooHigh (flds ! 0) 12 0))"
    if h: "12 < decimal (flds ! 0)"
  proof -
    obtain v vs where f: "flds = v # vs" using assms(4) by (cases flds) auto
    have "isdigit v" using dig [of 0] f by simp
    then show ?thesis
      using clock_loop_too_high [of v twelve_bot vs] h by (simp add: f lim)
  qed
  show ?thesis using valid high by (simp add: g)
qed

theorem clock12_valid_witness:
  "[''12'', ''59a.m.''] = str_split CHR '':'' ''12:59a.m.'' \<and>
   upper (drop 2 (last [''12'', ''59a.m.''])) \<in> {''AM'', ''PM'', ''A.M.'', ''P.M.''} \<and>
   list_all isdigit [''12'', ''59''] \<and> decimal ''12'' \<le> 12 \<and> decimal ''59'' \<le> 59 \<and>
   get_time (after_calls []) ''12:59a.m.'' = (Inr Valid, twelve_bot) \<and>
   [''13'', ''00PM''] = str_split CHR '':'' ''13:00PM'' \<and>
   upper (drop 2 (last [''13'', ''00PM''])) \<in> {''AM'', ''PM'', ''A.M.'', ''P.M.''} \<and>
   list_all isdigit [''13'', ''00''] \<and> 12 < decimal ''13'' \<and>
   get_time (after_calls []) ''13:00PM'' = (Inr (Invalid (ValueTooHigh ''13'' 12 0)), twelve_bot)"
proof -
  have a: "[''12'', ''59a.m.''] = str_split CHR '':'' ''12:59a.m.''" by code_simp
  have f: "[''12'', ''59''] = butlast [''12'', ''59a.m.''] @ [take 2 (last [''12'', ''59a.m.''])]"
    by simp
  have "upper (drop 2 (last [''12'', ''59a.m.''])) = ''A.M.''" by code_simp
  then have b: "upper (drop 2 (last [''12'', ''59a.m.''])) \<in> {''AM'', ''PM'', ''A.M.'', ''P.M.''}"
    by simp
  have l: "length [''12'', ''59''] = 2 \<or> length [''12'', ''59''] = 3" by simp
  have c: "list_all isdigit [''12'', ''59'']" by code_simp
  have d: "decimal ''12'' \<le> 12" and e: "decimal ''59'' \<le> 59" by code_simp+
  have "\<forall>i<length [''12'', ''59'']. 0 < i \<longrightarrow> decimal ([''12'', ''59''] ! i) \<le> 59"
    using e by (auto simp: less_Suc_eq)
  with d clock12_valid [OF a f b l c, of "[]"]
  have g: "get_time (after_calls []) ''12:59a.m.'' = (Inr Valid, twelve_bot)"
    by simp
  have a': "[''13'', ''00PM''] = str_split CHR '':'' ''13:00PM''" by code_simp
  have f': "[''13'', ''00''] = butlast [''13'', ''00PM''] @ [take 2 (last [''13'', ''00PM''])]"
    by simp
  have "upper (drop 2 (last [''13'', ''00PM''])) = ''PM''" by code_simp
  then have b': "upper (drop 2 (last [''13'', ''00PM''])) \<in> {''AM'', ''PM'', ''A.M.'', ''P.M.''}"
    by simp
  have l': "length [''13'', ''00''] = 2 \<or> length [''13'', ''00''] = 3" by simp
  have c': "list_all isdigit [''13'', ''00'']" by code_simp
  have d': "12 < decimal ''13''" by code_simp
  with clock12_valid [OF a' f' b' l' c', of "[]"]
  have g': "get_time (after_calls []) ''13:00PM'' =
      (Inr (Invalid (ValueTooHigh ''13'' 12 0)), twelve_bot)"
    by simp
  from a b c d e g a' b' c' d' g' show ?thesis by blast
qed

text \<open>
  C6. For a token classified as clock, the meridiem candidate is what follows the first two
  characters of the last colon-separated segment. When its upper-case form is none of
  \<^verbatim>\<open>AM\<close>, \<^verbatim>\<open>PM\<close>, \<^verbatim>\<open>A.M.\<close>, \<^verbatim>\<open>P.M.\<close> and the empty string, the call prints that
  it is not a meridiem and returns \<^verbatim>\<open>False\<close>, whatever the number of segments, their
  characters and their values are, and the bot object is left as it was.
\<close>

theorem invalid_meridiem_first:
  assumes "classify (upper t) = Some Clock"
    and "upper (drop 2 (last (str_split CHR '':'' t))) \<notin> {''AM'', ''PM'', ''A.M.'', ''P.M.'', ''''}"
  shows "get_time (after_calls ts) t =
           (Inr (Invalid (NotAMeridiem (upper (drop 2 (last (str_split CHR '':'' t)))))),
            after_calls ts)"
proof -
  let ?segs = "str_split CHR '':'' t"
  have "CHR '':'' \<in> set t"
    using classify_Clock [OF assms(1)] by (simp add: colon_upper)
  then have g: "get_time (after_calls ts) t = clock_branch (after_calls ts) (map upper ?segs)"
    by (rule get_time_clock)
  have "drop 2 (last (map upper ?segs)) = upper (drop 2 (last ?segs))"
    by (simp add: last_map str_split_not_Nil upper_def drop_map)
  with assms(2) show ?thesis
    unfolding g by (simp add: clock_branch_def str_split_not_Nil meridiems_after_calls)
qed

theorem invalid_meridiem_first_witness:
  "classify (upper ''12:59XM'') = Some Clock \<and>
   upper (drop 2 (last (str_split CHR '':'' ''12:59XM''))) \<notin> {''AM'', ''PM'', ''A.M.'', ''P.M.'', ''''} \<and>
   get_time (after_calls []) ''12:59XM'' = (Inr (Invalid (NotAMeridiem ''XM'')), after_calls [])"
proof -
  have a: "classify (upper ''12:59XM'') = Some Clock" by code_simp
  have b: "upper (drop 2 (last (str_split CHR '':'' ''12:59XM''))) = ''XM''" by code_simp
  have c: "''XM'' \<notin> {''AM'', ''PM'', ''A.M.'', ''P.M.'', ''''}" by simp
  from invalid_meridiem_first [of "''12:59XM''" "[]"] a b c show ?thesis by simp
qed

text \<open>
  Exceptions (C7, for byte-string tokens). For every byte string, after any earlier calls,
  \<open>get_time\<close> returns a verdict: no \<^verbatim>\<open>ValueError\<close>, \<^verbatim>\<open>KeyError\<close> or \<^verbatim>\<open>IndexError\<close> is
  raised. All functions of the model are total, so the call terminates. The segments
  that reach \<^verbatim>\<open>int\<close> have passed \<^verbatim>\<open>isdigit\<close>, and on byte strings \<^verbatim>\<open>int\<close> reads whatever
  \<^verbatim>\<open>isdigit\<close> accepts (\<open>py_int_isdigit\<close>); this is the step that does not carry over to
  \<^verbatim>\<open>unicode\<close> tokens.
\<close>

theorem get_time_returns_verdict: "\<exists>v. fst (get_time (after_calls ts) t) = Inr v"
  using after_calls_cases [of ts]
proof
  assume "after_calls ts = new_bot"
  then show ?thesis
    using get_time_no_error [of new_bot t] unit_limits_new_bot by (simp add: new_bot_def)
next
  assume "after_calls ts = twelve_bot"
  then show ?thesis
    using get_time_no_error [of twelve_bot t] unit_limits_twelve_bot by (simp add: twelve_bot_def new_bot_def)
qed

text \<open>
  C8. Validation is case-insensitive: a token and its upper-case form get the same result,
  whatever the bot object is; \<^verbatim>\<open>1d\<close> and \<^verbatim>\<open>12:59am\<close> are valid as \<^verbatim>\<open>1D\<close> and
  \<^verbatim>\<open>12:59AM\<close> are.
\<close>

theorem get_time_case_insensitive:
  "get_time self (upper t) = get_time self t \<and>
   upper ''1d'' = ''1D'' \<and> upper ''12:59am'' = ''12:59AM'' \<and>
   fst (get_time new_bot ''1d'') = Inr Valid \<and> fst (get_time new_bot ''1D'') = Inr Valid \<and>
   fst (get_time new_bot ''12:59am'') = Inr Valid \<and> fst (get_time new_bot ''12:59AM'') = Inr Valid"
proof -
  have "get_time self (upper t) = get_time self t"
    by (simp add: get_time_def upper_idem)
  moreover have "upper ''1d'' = ''1D''" "upper ''12:59am'' = ''12:59AM''"
    by code_simp+
  moreover have "fst (get_time new_bot ''1d'') = Inr Valid" "fst (get_time new_bot ''1D'') = Inr Valid"
    "fst (get_time new_bot ''12:59am'') = Inr Valid" "fst (get_time new_bot ''12:59AM'') = Inr Valid"
    by code_simp+
  ultimately show ?thesis by simp
qed

text \<open>
  C9. The loop over the segments asks for digits and a value within the limit of the
  position, not for a width: a list of all-digit segments within their limits passes it.
  So a token without meridiem, of two or three all-digit segments within the limits 23, 59
  and 59, is valid while the hour limit is 23, whatever the widths of the segments, as long
  as the last one has at most two characters (the rest of it would be the meridiem):
  \<^verbatim>\<open>1:5\<close> and \<^verbatim>\<open>9:30\<close> are valid (after any earlier calls, their hours being below 12
  too). In \<^verbatim>\<open>12:5PM\<close> the meridiem is \<^verbatim>\<open>M\<close>, and the token is rejected for it.
\<close>

theorem clock_fields_any_width:
  "(length vs \<le> length (clockLimits self) \<and>
    (\<forall>i<length vs. isdigit (vs ! i) \<and> decimal (vs ! i) \<le> clockLimits self ! i) \<longrightarrow>
      clock_loop self 0 vs = Inr Valid) \<and>
   (segs = str_split CHR '':'' t \<and> (length segs = 2 \<or> length segs = 3) \<and>
    length (last segs) \<le> 2 \<and> list_all isdigit segs \<and> decimal (segs ! 0) \<le> 23 \<and>
    (\<forall>i<length segs. 0 < i \<longrightarrow> decimal (segs ! i) \<le> 59) \<and>
    clockLimits (after_calls ts) = [23, 59, 59] \<longrightarrow>
      get_time (after_calls ts) t = (Inr Valid, after_calls ts)) \<and>
   fst (get_time (after_calls ts) ''1:5'') = Inr Valid \<and>
   fst (get_time (after_calls ts) ''9:30'') = Inr Valid \<and>
   fst (get_time (after_calls ts) ''12:5PM'') = Inr (Invalid (NotAMeridiem ''M''))"
proof -
  have loop: "clock_loop self 0 vs = Inr Valid"
    if "length vs \<le> length (clockLimits self)"
      and "\<forall>i<length vs. isdigit (vs ! i) \<and> decimal (vs ! i) \<le> clockLimits self ! i"
    for self vs
    using that by (intro clock_loop_Valid) auto
  have tok: "get_time (after_calls ts) t = (Inr Valid, after_calls ts)"
    if segs: "segs = str_split CHR '':'' t" and len: "length segs = 2 \<or> length segs = 3"
      and last: "length (last segs) \<le> 2" and dig: "list_all isdigit segs"
      and h: "decimal (segs ! 0) \<le> 23"
      and m: "\<forall>i<length segs. 0 < i \<longrightarrow> decimal (segs ! i) \<le> 59"
      and lim: "clockLimits (after_calls ts) = [23, 59, 59]"
  proof -
    have ne: "segs \<noteq> []" using len by auto
    have f: "segs = butlast segs @ [take 2 (last segs)]"
      using ne last by simp
    have g: "get_time (after_calls ts) t = (clock_loop (after_calls ts) 0 segs, after_calls ts)"
      using segs f _ _ len dig clockLimits_after_calls
      by (rule get_time_clock_24) (use last in \<open>simp_all add: meridiems_after_calls\<close>)
    have "decimal (segs ! i) \<le> [23, 59, 59] ! i" if "i < length segs" for i
    proof -
      from that len have "i = 0 \<or> i = 1 \<or> i = 2" by auto
      with h m that show ?thesis by auto
    qed
    then have "clock_loop (after_calls ts) 0 segs = Inr Valid"
      using dig len by (intro loop) (auto simp: lim list_all_length)
    with g show ?thesis by simp
  qed
  have "fst (get_time new_bot ''12:5PM'') = Inr (Invalid (NotAMeridiem ''M''))"
    "fst (get_time twelve_bot ''12:5PM'') = Inr (Invalid (NotAMeridiem ''M''))"
    by code_simp+
  then have pm: "fst (get_time (after_calls ts) ''12:5PM'') = Inr (Invalid (NotAMeridiem ''M''))"
    using after_calls_cases [of ts] by auto
  have "fst (get_time new_bot ''1:5'') = Inr Valid" "fst (get_time new_bot ''9:30'') = Inr Valid"
    "fst (get_time twelve_bot ''1:5'') = Inr Valid" "fst (get_time twelve_bot ''9:30'') = Inr Valid"
    by code_simp+
  then have ex: "fst (get_time (after_calls ts) ''1:5'') = Inr Valid"
    "fst (get_time (after_calls ts) ''9:30'') = Inr Valid"
    using after_calls_cases [of ts] by auto
  from loop [of vs self] tok pm ex show ?thesis by blast
qed

theorem clock_fields_any_width_witness:
  "length [''007'', ''5''] \<le> length (clockLimits new_bot) \<and>
   isdigit ''007'' \<and> isdigit ''5'' \<and> decimal ''007'' \<le> 23 \<and> decimal ''5'' \<le> 59 \<and>
   clock_loop new_bot 0 [''007'', ''5''] = Inr Valid \<and>
   [''9'', ''30''] = str_split CHR '':'' ''9:30'' \<and>
   length (last [''9'', ''30'']) \<le> 2 \<and> isdigit ''9'' \<and> isdigit ''30'' \<and>
   decimal ''9'' \<le> 23 \<and> decimal ''30'' \<le> 59 \<and>
   clockLimits (after_calls []) = [23, 59, 59] \<and>
   get_time (after_calls []) ''9:30'' = (Inr Valid, after_calls [])"
proof -
  have d: "isdigit ''007''" "isdigit ''5''" "decimal ''007'' \<le> 23" "decimal ''5'' \<le> 59"
    by code_simp+
  have a: "length [''007'', ''5''] \<le> length (clockLimits new_bot)"
    by (simp add: new_bot_def)
  have b: "\<forall>i<length [''007'', ''5'']. isdigit ([''007'', ''5''] ! i) \<and>
       decimal ([''007'', ''5''] ! i) \<le> clockLimits new_bot ! i"
    using d by (auto simp: less_Suc_eq new_bot_def)
  have s: "[''9'', ''30''] = str_split CHR '':'' ''9:30''" by code_simp
  have l: "length [''9'', ''30''] = 2 \<or> length [''9'', ''30''] = 3"
    and k: "length (last [''9'', ''30'']) \<le> 2" by simp_all
  have e: "isdigit ''9''" "isdigit ''30''" "decimal ''9'' \<le> 23" "decimal ''30'' \<le> 59"
    by code_simp+
  have g: "list_all isdigit [''9'', ''30'']" using e by simp
  have h: "decimal ([''9'', ''30''] ! 0) \<le> 23" using e by simp
  have m: "\<forall>i<length [''9'', ''30'']. 0 < i \<longrightarrow> decimal ([''9'', ''30''] ! i) \<le> 59"
    using e by (auto simp: less_Suc_eq)
  have c: "clockLimits (after_calls []) = [23, 59, 59]"
    by (simp add: after_calls_def new_bot_def)
  from clock_fields_any_width [of "[''007'', ''5'']" new_bot "[''9'', ''30'']" "''9:30''" "[]"]
    a b s l k g h m c
  have "clock_loop new_bot 0 [''007'', ''5''] = Inr Valid"
    and "get_time (after_calls []) ''9:30'' = (Inr Valid, after_calls [])"
    by blast+
  with a d s k e c show ?thesis by blast
qed

text \<open>
  C10. The meridiem check comes before the count of the segments: \<^verbatim>\<open>1:2:3:4:5XM\<close> has five
  segments and is rejected for its meridiem; a call that ends with the message of the count
  check has passed the meridiem check. A string with a colon splits into two segments at
  least, so a call that ends with the message of the count check has more than three
  segments: the count is never below two there.
\<close>

theorem meridiem_before_count:
  "fst (get_time (after_calls ts) ''1:2:3:4:5XM'') = Inr (Invalid (NotAMeridiem ''M'')) \<and>
   length (str_split CHR '':'' ''1:2:3:4:5XM'') = 5 \<and>
   (CHR '':'' \<in> set s \<longrightarrow> 2 \<le> length (str_split CHR '':'' s)) \<and>
   (fst (get_time self t) = Inr (Invalid MissingValues) \<longrightarrow>
      3 < length (str_split CHR '':'' (upper t)) \<and>
      drop 2 (last (str_split CHR '':'' (upper t))) \<in> meridiems self)"
proof -
  have "fst (get_time new_bot ''1:2:3:4:5XM'') = Inr (Invalid (NotAMeridiem ''M''))"
    "fst (get_time twelve_bot ''1:2:3:4:5XM'') = Inr (Invalid (NotAMeridiem ''M''))"
    by code_simp+
  then have "fst (get_time (after_calls ts) ''1:2:3:4:5XM'') = Inr (Invalid (NotAMeridiem ''M''))"
    using after_calls_cases [of ts] by auto
  moreover have "length (str_split CHR '':'' ''1:2:3:4:5XM'') = 5" by code_simp
  ultimately show ?thesis
    using get_time_Missing [of self t] by (simp add: str_split_length)
qed

theorem meridiem_before_count_witness:
  "CHR '':'' \<in> set ''1:2'' \<and> 2 \<le> length (str_split CHR '':'' ''1:2'') \<and>
   fst (get_time new_bot ''1:2:3:4'') = Inr (Invalid MissingValues) \<and>
   3 < length (str_split CHR '':'' (upper ''1:2:3:4'')) \<and>
   drop 2 (last (str_split CHR '':'' (upper ''1:2:3:4''))) \<in> meridiems new_bot"
proof -
  have a: "CHR '':'' \<in> set ''1:2''" by simp
  have b: "fst (get_time new_bot ''1:2:3:4'') = Inr (Invalid MissingValues)" by code_simp
  from meridiem_before_count [of "[]" "''1:2''" new_bot "''1:2:3:4''"] a b show ?thesis by blast
qed

end
